theory Spec2Isabelle
  imports Main "HOL-Library.Word" "HOL-Library.Multiset" "HOL-Library.Product_Lexorder"
    "HOL-Library.Monad_Syntax"
begin

section \<open>Records and their comparison\<close>

text \<open>
  \<open>using mypair = std::pair<std::int32_t, std::int32_t>\<close>: the first component is the
  key, the second the position the record had when the vector was filled.
\<close>

type_synonym mypair = "32 word \<times> 32 word"

text \<open>
  No comparator is passed to any sort or merge call of the program, so records are compared
  with \<open>operator<\<close> of \<open>std::pair\<close>:
  \<open>x.first < y.first || (!(y.first < x.first) && x.second < y.second)\<close>,
  on signed 32-bit components.
\<close>

definition pair_less :: "mypair \<Rightarrow> mypair \<Rightarrow> bool" where
  "pair_less x y \<longleftrightarrow>
     word_sless (fst x) (fst y) \<or> (\<not> word_sless (fst y) (fst x) \<and> word_sless (snd x) (snd y))"

text \<open>The signed reading of a record, ordered lexicographically as a pair of integers.\<close>

definition sval :: "mypair \<Rightarrow> int \<times> int" where
  "sval x = (sint (fst x), sint (snd x))"

section \<open>The two library algorithms\<close>

text \<open>
  \<open>std::stable_sort\<close> and \<open>std::inplace_merge\<close> belong to the C++ standard library. They
  are modelled on lists by the textbook algorithms that meet their contracts: a stable
  insertion sort (an element moves past another only when it is strictly less), and the
  two-finger merge that takes from the right run only when its head is strictly less than
  the head of the left run. Lemmas below show that each result is fixed by the contract,
  so the choice of algorithm does not matter.
\<close>

fun insert_stable :: "mypair \<Rightarrow> mypair list \<Rightarrow> mypair list" where
  "insert_stable x [] = [x]"
| "insert_stable x (y # ys) = (if pair_less y x then y # insert_stable x ys else x # y # ys)"

fun stable_sort_list :: "mypair list \<Rightarrow> mypair list" where
  "stable_sort_list [] = []"
| "stable_sort_list (x # xs) = insert_stable x (stable_sort_list xs)"

fun merge_list :: "mypair list \<Rightarrow> mypair list \<Rightarrow> mypair list" where
  "merge_list [] ys = ys"
| "merge_list xs [] = xs"
| "merge_list (x # xs) (y # ys) =
     (if pair_less y x then y # merge_list (x # xs) ys else x # merge_list xs (y # ys))"

text \<open>
  A vector is a list; an iterator into it is an offset from \<open>begin()\<close>. A call on the range
  \<open>[first, last)\<close> replaces that slice of the vector and nothing else. (\<open>lst\<close> stands for
  the source's \<open>last\<close>, which is the name of a list function here.) Both calls require a
  valid range, \<open>first \<le> last \<le> size\<close>; the recursive sorts below never pass another one
  when they are given a valid range themselves.
\<close>

definition std_stable_sort :: "mypair list \<Rightarrow> nat \<Rightarrow> nat \<Rightarrow> mypair list" where
  "std_stable_sort v first lst =
     take first v @ stable_sort_list (take (lst - first) (drop first v)) @ drop lst v"

definition std_inplace_merge :: "mypair list \<Rightarrow> nat \<Rightarrow> nat \<Rightarrow> nat \<Rightarrow> mypair list" where
  "std_inplace_merge v first middle lst =
     take first v
       @ merge_list (take (middle - first) (drop first v)) (take (lst - middle) (drop middle v))
       @ drop lst v"

section \<open>The recursive sorts\<close>

text \<open>\<open>static auto const THRESHOLD = 3\<close>; the depth counter \<open>reci\<close> is a \<open>std::int32_t\<close>.\<close>

definition THRESHOLD :: "32 word" where
  "THRESHOLD = 3"

text \<open>
  The four variants share one body and differ in how the two recursive calls are started
  and awaited (\<open>cilk_spawn\<close> and \<open>cilk_sync\<close>, OpenMP tasks and \<open>taskwait\<close>,
  \<open>tbb::parallel_invoke\<close>, \<open>std::thread\<close> and \<open>join\<close>). The two calls work on the
  disjoint ranges \<open>[first, middle)\<close> and \<open>[middle, last)\<close> and both have finished before
  the merge starts, so their joint effect is that of running one after the other; the
  model runs the lower half first (the other order is \<open>run_upper_first\<close> below).
  \<open>len\<close> is the signed \<open>std::distance(first, last)\<close>; \<open>len / 2\<close> is taken only when
  \<open>len\<close> is positive, where truncating and flooring division agree. \<open>reci++\<close> is the
  wrapping addition of a 32-bit word, compared as a signed value.

  A call's value is \<open>Some\<close> of the vector it leaves behind, paired with a record of what
  the call did, and \<open>None\<close> when it does not return: a parent that waits for a child which
  never returns never returns either. That a thread or task cannot be created for lack of
  resources is outside this model.

  The record is not data of the program. Each branch of the body writes down which branch
  it is, so that statements can speak of the path a call took and not only of the vector:
  \<open>Return\<close> for the early return, \<open>Leaf first last reci\<close> for the branch that hands
  \<open>[first, last)\<close> to \<open>std::stable_sort\<close> (a leaf segment), and
  \<open>Split first middle last reci lo hi\<close> for the branch that makes the two recursive calls,
  whose own records are \<open>lo\<close> and \<open>hi\<close>; \<open>reci\<close> is the incremented depth counter that
  the branch condition tested.
\<close>

datatype call =
    Return
  | Leaf nat nat "32 word"
  | Split nat nat nat "32 word" call call


partial_function (option) stable_sort_cilk ::
  "mypair list \<Rightarrow> nat \<Rightarrow> nat \<Rightarrow> 32 word \<Rightarrow> (mypair list \<times> call) option" where
  "stable_sort_cilk v first lst reci =
     (let len = int lst - int first in
      if len \<le> 1 then Some (v, Return)
      else
        let reci' = reci + 1 in
        if word_sle reci' THRESHOLD then
          let middle = first + nat (len div 2) in
          do {
            (v1, lo) \<leftarrow> stable_sort_cilk v first middle reci';
            (v2, hi) \<leftarrow> stable_sort_cilk v1 middle lst reci';
            Some (std_inplace_merge v2 first middle lst, Split first middle lst reci' lo hi)
          }
        else Some (std_stable_sort v first lst, Leaf first lst reci'))"

text \<open>The two-argument overload: \<open>stable_sort_cilk(first, last, 0)\<close>.\<close>

definition stable_sort_cilk_top ::
  "mypair list \<Rightarrow> nat \<Rightarrow> nat \<Rightarrow> (mypair list \<times> call) option" where
  "stable_sort_cilk_top v first lst = stable_sort_cilk v first lst 0"

partial_function (option) stable_sort_openmp ::
  "mypair list \<Rightarrow> nat \<Rightarrow> nat \<Rightarrow> 32 word \<Rightarrow> (mypair list \<times> call) option" where
  "stable_sort_openmp v first lst reci =
     (let len = int lst - int first in
      if len \<le> 1 then Some (v, Return)
      else
        let reci' = reci + 1 in
        if word_sle reci' THRESHOLD then
          let middle = first + nat (len div 2) in
          do {
            (v1, lo) \<leftarrow> stable_sort_openmp v first middle reci';
            (v2, hi) \<leftarrow> stable_sort_openmp v1 middle lst reci';
            Some (std_inplace_merge v2 first middle lst, Split first middle lst reci' lo hi)
          }
        else Some (std_stable_sort v first lst, Leaf first lst reci'))"

text \<open>The two-argument overload runs \<open>stable_sort_openmp(first, last, 0)\<close> once, in the
  \<open>single\<close> region of an OpenMP \<open>parallel\<close> region.\<close>

definition stable_sort_openmp_top ::
  "mypair list \<Rightarrow> nat \<Rightarrow> nat \<Rightarrow> (mypair list \<times> call) option" where
  "stable_sort_openmp_top v first lst = stable_sort_openmp v first lst 0"

partial_function (option) stable_sort_tbb ::
  "mypair list \<Rightarrow> nat \<Rightarrow> nat \<Rightarrow> 32 word \<Rightarrow> (mypair list \<times> call) option" where
  "stable_sort_tbb v first lst reci =
     (let len = int lst - int first in
      if len \<le> 1 then Some (v, Return)
      else
        let reci' = reci + 1 in
        if word_sle reci' THRESHOLD then
          let middle = first + nat (len div 2) in
          do {
            (v1, lo) \<leftarrow> stable_sort_tbb v first middle reci';
            (v2, hi) \<leftarrow> stable_sort_tbb v1 middle lst reci';
            Some (std_inplace_merge v2 first middle lst, Split first middle lst reci' lo hi)
          }
        else Some (std_stable_sort v first lst, Leaf first lst reci'))"

text \<open>The two-argument overload: \<open>stable_sort_tbb(first, last, 0)\<close>.\<close>

definition stable_sort_tbb_top ::
  "mypair list \<Rightarrow> nat \<Rightarrow> nat \<Rightarrow> (mypair list \<times> call) option" where
  "stable_sort_tbb_top v first lst = stable_sort_tbb v first lst 0"

partial_function (option) stable_sort_thread ::
  "mypair list \<Rightarrow> nat \<Rightarrow> nat \<Rightarrow> 32 word \<Rightarrow> (mypair list \<times> call) option" where
  "stable_sort_thread v first lst reci =
     (let len = int lst - int first in
      if len \<le> 1 then Some (v, Return)
      else
        let reci' = reci + 1 in
        if word_sle reci' THRESHOLD then
          let middle = first + nat (len div 2) in
          do {
            (v1, lo) \<leftarrow> stable_sort_thread v first middle reci';
            (v2, hi) \<leftarrow> stable_sort_thread v1 middle lst reci';
            Some (std_inplace_merge v2 first middle lst, Split first middle lst reci' lo hi)
          }
        else Some (std_stable_sort v first lst, Leaf first lst reci'))"

text \<open>The two-argument overload: \<open>stable_sort_thread(first, last, 0)\<close>.\<close>

definition stable_sort_thread_top ::
  "mypair list \<Rightarrow> nat \<Rightarrow> nat \<Rightarrow> (mypair list \<times> call) option" where
  "stable_sort_thread_top v first lst = stable_sort_thread v first lst 0"

text \<open>
  \<open>check_performance\<close> times each sort on a whole vector, through a lambda of the form
  \<open>[](auto & vec) { stable_sort_thread(vec.begin(), vec.end()); }\<close>; the columns of its
  output name the four variants.
\<close>

datatype backend = Thread | OpenMP | TBB | Cilk

text \<open>The vector a call leaves behind, and the record of what it did.\<close>

fun stable_sort_rec ::
  "backend \<Rightarrow> mypair list \<Rightarrow> nat \<Rightarrow> nat \<Rightarrow> 32 word \<Rightarrow> mypair list option" where
  "stable_sort_rec Thread v first lst reci = map_option fst (stable_sort_thread v first lst reci)"
| "stable_sort_rec OpenMP v first lst reci = map_option fst (stable_sort_openmp v first lst reci)"
| "stable_sort_rec TBB v first lst reci = map_option fst (stable_sort_tbb v first lst reci)"
| "stable_sort_rec Cilk v first lst reci = map_option fst (stable_sort_cilk v first lst reci)"

fun calls_made :: "backend \<Rightarrow> mypair list \<Rightarrow> nat \<Rightarrow> nat \<Rightarrow> 32 word \<Rightarrow> call option" where
  "calls_made Thread v first lst reci = map_option snd (stable_sort_thread v first lst reci)"
| "calls_made OpenMP v first lst reci = map_option snd (stable_sort_openmp v first lst reci)"
| "calls_made TBB v first lst reci = map_option snd (stable_sort_tbb v first lst reci)"
| "calls_made Cilk v first lst reci = map_option snd (stable_sort_cilk v first lst reci)"

fun sort_with :: "backend \<Rightarrow> mypair list \<Rightarrow> mypair list option" where
  "sort_with Thread vec = map_option fst (stable_sort_thread_top vec 0 (length vec))"
| "sort_with OpenMP vec = map_option fst (stable_sort_openmp_top vec 0 (length vec))"
| "sort_with TBB vec = map_option fst (stable_sort_tbb_top vec 0 (length vec))"
| "sort_with Cilk vec = map_option fst (stable_sort_cilk_top vec 0 (length vec))"

fun calls_made_top :: "backend \<Rightarrow> mypair list \<Rightarrow> call option" where
  "calls_made_top Thread vec = map_option snd (stable_sort_thread_top vec 0 (length vec))"
| "calls_made_top OpenMP vec = map_option snd (stable_sort_openmp_top vec 0 (length vec))"
| "calls_made_top TBB vec = map_option snd (stable_sort_tbb_top vec 0 (length vec))"
| "calls_made_top Cilk vec = map_option snd (stable_sort_cilk_top vec 0 (length vec))"

text \<open>The call returns, and the vector it leaves behind satisfies \<open>P\<close>.\<close>

definition returns :: "mypair list option \<Rightarrow> (mypair list \<Rightarrow> bool) \<Rightarrow> bool" where
  "returns r P = (case r of None \<Rightarrow> False | Some v' \<Rightarrow> P v')"

section \<open>The self-check of the debug build\<close>

text \<open>
  \<open>vec_check\<close> compares two vectors index by index and stops at the first difference.
  \<open>BOOST_ASSERT(size == v2.size())\<close> stops the program when the sizes differ: \<open>None\<close>.
  (\<open>sz\<close> stands for the source's \<open>size\<close>.)
\<close>

function vec_check_loop :: "mypair list \<Rightarrow> mypair list \<Rightarrow> nat \<Rightarrow> nat \<Rightarrow> bool" where
  "vec_check_loop v1 v2 sz i =
     (if i < sz then (if v1 ! i \<noteq> v2 ! i then False else vec_check_loop v1 v2 sz (i + 1))
      else True)"
  by pat_completeness auto
termination
  by (relation "measure (\<lambda>(v1, v2, sz, i). sz - i)") auto

definition vec_check :: "mypair list \<Rightarrow> mypair list \<Rightarrow> bool option" where
  "vec_check v1 v2 =
     (let sz = length v1 in
      if sz \<noteq> length v2 then None else Some (vec_check_loop v1 v2 sz 0))"

section \<open>The shape of the recursion\<close>

text \<open>
  Which calls a sort makes depends on \<open>first\<close>, \<open>last\<close> and \<open>reci\<close> only, never on the
  records. \<open>call_tree\<close> computes, from these three alone, the record of calls that the
  sorts are shown below to make.
\<close>

function call_tree :: "nat \<Rightarrow> nat \<Rightarrow> 32 word \<Rightarrow> call" where
  "call_tree first lst reci =
     (let len = int lst - int first in
      if len \<le> 1 then Return
      else
        let reci' = reci + 1 in
        if word_sle reci' THRESHOLD then
          let middle = first + nat (len div 2) in
          Split first middle lst reci' (call_tree first middle reci') (call_tree middle lst reci')
        else Leaf first lst reci')"
  by pat_completeness auto
termination
  by (relation "measure (\<lambda>(first, lst, reci). lst - first)") auto

text \<open>Carrying out a call tree on a vector, lower half first, and upper half first.\<close>

fun run :: "call \<Rightarrow> mypair list \<Rightarrow> mypair list" where
  "run Return v = v"
| "run (Leaf first lst d) v = std_stable_sort v first lst"
| "run (Split first middle lst d lo hi) v = std_inplace_merge (run hi (run lo v)) first middle lst"

fun run_upper_first :: "call \<Rightarrow> mypair list \<Rightarrow> mypair list" where
  "run_upper_first Return v = v"
| "run_upper_first (Leaf first lst d) v = std_stable_sort v first lst"
| "run_upper_first (Split first middle lst d lo hi) v =
     std_inplace_merge (run_upper_first lo (run_upper_first hi v)) first middle lst"

text \<open>The leaf segments of a call tree, left to right.\<close>

fun leaves :: "call \<Rightarrow> (nat \<times> nat) list" where
  "leaves Return = []"
| "leaves (Leaf first lst d) = [(first, lst)]"
| "leaves (Split first middle lst d lo hi) = leaves lo @ leaves hi"

text \<open>
  Every split was made at a depth counter within the threshold, and every leaf segment at
  one beyond it.
\<close>

fun gate_ok :: "call \<Rightarrow> bool" where
  "gate_ok Return = True"
| "gate_ok (Leaf first lst d) = (\<not> word_sle d THRESHOLD)"
| "gate_ok (Split first middle lst d lo hi) = (word_sle d THRESHOLD \<and> gate_ok lo \<and> gate_ok hi)"


section \<open>The threshold as a parameter\<close>

text \<open>
  The body of the four sorts with the threshold passed in instead of read from the
  constant: the recursion whose results for different thresholds are compared.
\<close>

partial_function (option) stable_sort_threshold ::
  "32 word \<Rightarrow> mypair list \<Rightarrow> nat \<Rightarrow> nat \<Rightarrow> 32 word \<Rightarrow> mypair list option" where
  "stable_sort_threshold thr v first lst reci =
     (let len = int lst - int first in
      if len \<le> 1 then Some v
      else
        let reci' = reci + 1 in
        if word_sle reci' thr then
          let middle = first + nat (len div 2) in
          do {
            v1 \<leftarrow> stable_sort_threshold thr v first middle reci';
            v2 \<leftarrow> stable_sort_threshold thr v1 middle lst reci';
            Some (std_inplace_merge v2 first middle lst)
          }
        else Some (std_stable_sort v first lst))"

section \<open>Properties of vectors\<close>

text \<open>Keys ascend along the vector.\<close>

definition key_ascending :: "mypair list \<Rightarrow> bool" where
  "key_ascending ys \<longleftrightarrow> (\<forall>j < length ys. \<forall>i < j. sint (fst (ys ! i)) \<le> sint (fst (ys ! j)))"

text \<open>Of two records with equal keys, the one with the smaller original index comes first.\<close>

definition smaller_index_first :: "mypair list \<Rightarrow> bool" where
  "smaller_index_first ys \<longleftrightarrow>
     (\<forall>i < length ys. \<forall>j < length ys.
        fst (ys ! i) = fst (ys ! j) \<and> sint (snd (ys ! i)) < sint (snd (ys ! j)) \<longrightarrow> i < j)"

text \<open>Keys ascend, and records with equal keys are in ascending order of original index.\<close>

definition already_sorted :: "mypair list \<Rightarrow> bool" where
  "already_sorted ys \<longleftrightarrow>
     (\<forall>j < length ys. \<forall>i < j.
        sint (fst (ys ! i)) < sint (fst (ys ! j))
        \<or> (fst (ys ! i) = fst (ys ! j) \<and> sint (snd (ys ! i)) \<le> sint (snd (ys ! j))))"

text \<open>The records of a run that carry the key \<open>k\<close>, in the order they have in the run.\<close>

definition records_with_key :: "32 word \<Rightarrow> mypair list \<Rightarrow> mypair list" where
  "records_with_key k xs = filter (\<lambda>x. fst x = k) xs"

declare call_tree.simps [simp del] vec_check_loop.simps [simp del]

declare stable_sort_rec.simps [simp del] calls_made.simps [simp del]
  sort_with.simps [simp del] calls_made_top.simps [simp del]

section \<open>The record order\<close>

lemma pair_less_sval: "pair_less x y \<longleftrightarrow> sval x < sval y"
  by (auto simp: pair_less_def sval_def word_sless_alt less_prod_def)

lemma sval_inj: "sval x = sval y \<Longrightarrow> x = y"
  by (cases x, cases y) (auto simp: sval_def intro: signed_word_eqI)

lemma inj_sval: "inj sval"
  by (rule injI) (rule sval_inj)

lemma sval_le: "sval x \<le> sval y \<longleftrightarrow>
    sint (fst x) < sint (fst y) \<or> (fst x = fst y \<and> sint (snd x) \<le> sint (snd y))"
  by (auto simp: sval_def less_eq_prod_def intro: signed_word_eqI)

lemma sorted_sval_already: "sorted (map sval ys) \<longleftrightarrow> already_sorted ys"
  unfolding already_sorted_def sorted_iff_nth_mono_less
  by (auto simp: sval_le [symmetric])

lemma already_sorted_key_ascending: "already_sorted ys \<Longrightarrow> key_ascending ys"
  unfolding already_sorted_def key_ascending_def by force

lemma already_sorted_smaller_index_first: "already_sorted ys \<Longrightarrow> smaller_index_first ys"
  unfolding already_sorted_def smaller_index_first_def
proof (intro allI impI)
  fix i j
  assume h: "\<forall>j<length ys. \<forall>i<j. sint (fst (ys ! i)) < sint (fst (ys ! j))
        \<or> (fst (ys ! i) = fst (ys ! j) \<and> sint (snd (ys ! i)) \<le> sint (snd (ys ! j)))"
    and i: "i < length ys" and j: "j < length ys"
    and e: "fst (ys ! i) = fst (ys ! j) \<and> sint (snd (ys ! i)) < sint (snd (ys ! j))"
  show "i < j"
  proof (rule ccontr)
    assume "\<not> i < j"
    then consider "i = j" | "j < i" by linarith
    then show False
    proof cases
      case 1
      then show ?thesis using e by simp
    next
      case 2
      then show ?thesis using h i e by fastforce
    qed
  qed
qed

lemma pair_less_lex:
  "pair_less x y \<longleftrightarrow>
     sint (fst x) < sint (fst y) \<or> (fst x = fst y \<and> sint (snd x) < sint (snd y))"
  by (auto simp: pair_less_def word_sless_alt intro: signed_word_eqI signed_word_eqI [symmetric])

lemma sorted_wrt_pair_less: "sorted_wrt pair_less ys \<longleftrightarrow> sorted (map sval ys) \<and> distinct ys"
proof -
  have "sorted_wrt pair_less ys \<longleftrightarrow> sorted_wrt (<) (map sval ys)"
    by (simp add: sorted_wrt_map pair_less_sval [abs_def])
  also have "\<dots> \<longleftrightarrow> sorted (map sval ys) \<and> distinct (map sval ys)"
    by (rule strict_sorted_iff)
  also have "distinct (map sval ys) \<longleftrightarrow> distinct ys"
    using inj_sval by (simp add: distinct_map inj_on_def sval_inj)
  finally show ?thesis .
qed

section \<open>The library algorithms meet their contracts\<close>

lemma insert_stable_insort: "insert_stable x ys = insort_key sval x ys"
  by (induction ys) (auto simp: pair_less_sval)

lemma stable_sort_list_sort_key: "stable_sort_list xs = sort_key sval xs"
  by (induction xs) (simp_all add: insert_stable_insort)

lemma mset_stable_sort_list: "mset (stable_sort_list xs) = mset xs"
  by (simp add: stable_sort_list_sort_key)

lemma sorted_stable_sort_list: "sorted (map sval (stable_sort_list xs))"
  by (simp add: stable_sort_list_sort_key)

lemma length_stable_sort_list: "length (stable_sort_list xs) = length xs"
  by (simp add: stable_sort_list_sort_key)

lemma mset_merge_list: "mset (merge_list xs ys) = mset xs + mset ys"
  by (induction xs ys rule: merge_list.induct) simp_all

lemma set_merge_list: "set (merge_list xs ys) = set xs \<union> set ys"
  by (induction xs ys rule: merge_list.induct) auto

lemma length_merge_list: "length (merge_list xs ys) = length xs + length ys"
  by (induction xs ys rule: merge_list.induct) simp_all

lemma sorted_merge_list:
  "sorted (map sval xs) \<Longrightarrow> sorted (map sval ys) \<Longrightarrow> sorted (map sval (merge_list xs ys))"
  by (induction xs ys rule: merge_list.induct)
     (auto simp: pair_less_sval set_merge_list)

lemma sorted_sval_unique:
  assumes "sorted (map sval ys)" and "mset ys = mset xs"
  shows "ys = stable_sort_list xs"
proof -
  have "mset (map sval ys) = mset (map sval (stable_sort_list xs))"
    using assms(2) by (simp add: mset_stable_sort_list)
  then have "map sval ys = map sval (stable_sort_list xs)"
    using assms(1) sorted_stable_sort_list [of xs]
    by (metis properties_for_sort)
  then show ?thesis
    using inj_sval by (simp add: inj_map_eq_map)
qed

lemma merge_sorted_runs:
  "merge_list (stable_sort_list xs) (stable_sort_list ys) = stable_sort_list (xs @ ys)"
  by (rule sorted_sval_unique)
     (simp_all add: sorted_merge_list sorted_stable_sort_list mset_merge_list mset_stable_sort_list)

lemma stable_sort_list_id: "sorted (map sval xs) \<Longrightarrow> stable_sort_list xs = xs"
  by (rule sorted_sval_unique [symmetric]) simp_all

lemma merge_list_unique:
  assumes "sorted (map sval l)" and "sorted (map sval r)"
  shows "merge_list l r = stable_sort_list (l @ r)"
  by (rule sorted_sval_unique) (simp_all add: sorted_merge_list assms mset_merge_list)

lemma records_with_key_merge_list:
  assumes "sorted (map sval l)" and "sorted (map sval r)"
    and "\<forall>a\<in>set l. \<forall>b\<in>set r. fst a = fst b \<longrightarrow> sint (snd a) \<le> sint (snd b)"
  shows "records_with_key k (merge_list l r) = records_with_key k l @ records_with_key k r"
proof -
  let ?xs = "records_with_key k l @ records_with_key k r"
  have "sorted (map sval (records_with_key k (merge_list l r)))"
    unfolding records_with_key_def
    using sorted_merge_list [OF assms(1,2)] by (rule sorted_filter)
  moreover have "mset (records_with_key k (merge_list l r)) = mset ?xs"
    by (simp add: records_with_key_def mset_merge_list)
  ultimately have lhs: "records_with_key k (merge_list l r) = stable_sort_list ?xs"
    by (rule sorted_sval_unique)
  have "sorted (map sval (records_with_key k l))" "sorted (map sval (records_with_key k r))"
    unfolding records_with_key_def using assms(1,2) by (auto intro: sorted_filter)
  moreover have "\<forall>a\<in>set (records_with_key k l). \<forall>b\<in>set (records_with_key k r). sval a \<le> sval b"
    using assms(3) by (auto simp: records_with_key_def sval_le)
  ultimately have "sorted (map sval ?xs)"
    by (simp add: sorted_append)
  then have "?xs = stable_sort_list ?xs"
    by (rule sorted_sval_unique) simp
  then show ?thesis using lhs by simp
qed

section \<open>Sorting and merging slices of a vector\<close>

lemma split_range:
  assumes "first \<le> middle" "middle \<le> lst" "lst \<le> length (v::'a list)"
  obtains a l r b where "v = a @ l @ r @ b" "length a = first" "length l = middle - first"
    "length r = lst - middle"
proof
  show "v = take first v @ take (middle - first) (drop first v) @ take (lst - middle) (drop middle v) @ drop lst v"
    using assms
    by (metis append_take_drop_id drop_drop drop_take le_add_diff_inverse2 take_drop)
  show "length (take first v) = first" using assms by simp
  show "length (take (middle - first) (drop first v)) = middle - first" using assms by simp
  show "length (take (lst - middle) (drop middle v)) = lst - middle" using assms by simp
qed

lemma stable_sort_list_short: "length xs \<le> 1 \<Longrightarrow> stable_sort_list xs = xs"
  by (cases xs) (auto simp: le_Suc_eq)

lemma std_stable_sort_parts:
  "length a = first \<Longrightarrow> length m = lst - first \<Longrightarrow> first \<le> lst \<Longrightarrow>
     std_stable_sort (a @ m @ b) first lst = a @ stable_sort_list m @ b"
  by (simp add: std_stable_sort_def)

lemma std_inplace_merge_parts:
  "length a = first \<Longrightarrow> length l = middle - first \<Longrightarrow> length r = lst - middle \<Longrightarrow>
   first \<le> middle \<Longrightarrow> middle \<le> lst \<Longrightarrow>
     std_inplace_merge (a @ l @ r @ b) first middle lst = a @ merge_list l r @ b"
  by (simp add: std_inplace_merge_def)

lemma std_stable_sort_short:
  assumes "first \<le> lst" and "int lst - int first \<le> 1"
  shows "std_stable_sort v first lst = v"
proof -
  have "stable_sort_list (take (lst - first) (drop first v)) = take (lst - first) (drop first v)"
    using assms(2) by (intro stable_sort_list_short) simp
  moreover have "drop (lst - first) (drop first v) = drop lst v"
    using assms(1) by simp
  then have "take (lst - first) (drop first v) @ drop lst v = drop first v"
    using append_take_drop_id [of "lst - first" "drop first v"] by simp
  ultimately show ?thesis by (simp add: std_stable_sort_def)
qed

lemma length_std_stable_sort:
  "first \<le> lst \<Longrightarrow> lst \<le> length v \<Longrightarrow> length (std_stable_sort v first lst) = length v"
  by (simp add: std_stable_sort_def length_stable_sort_list)

lemma sort_halves_then_merge:
  assumes "first \<le> middle" "middle \<le> lst" "lst \<le> length v"
  shows "std_inplace_merge (std_stable_sort (std_stable_sort v first middle) middle lst)
           first middle lst = std_stable_sort v first lst"
proof -
  obtain a l r b where v: "v = a @ l @ r @ b" and la: "length a = first"
    and ll: "length l = middle - first" and lr: "length r = lst - middle"
    using split_range [OF assms] by blast
  have s1: "std_stable_sort v first middle = a @ stable_sort_list l @ (r @ b)"
    unfolding v using la ll assms(1) by (rule std_stable_sort_parts)
  have s2: "std_stable_sort ((a @ stable_sort_list l) @ r @ b) middle lst
              = (a @ stable_sort_list l) @ stable_sort_list r @ b"
    using la ll lr assms by (intro std_stable_sort_parts) (simp_all add: length_stable_sort_list)
  have s3: "std_inplace_merge (a @ stable_sort_list l @ stable_sort_list r @ b) first middle lst
              = a @ merge_list (stable_sort_list l) (stable_sort_list r) @ b"
    using la ll lr assms by (intro std_inplace_merge_parts) (simp_all add: length_stable_sort_list)
  have s4: "std_stable_sort (a @ (l @ r) @ b) first lst = a @ stable_sort_list (l @ r) @ b"
    using la ll lr assms by (intro std_stable_sort_parts) simp_all
  show ?thesis
    using s1 s2 s3 s4 by (simp add: v merge_sorted_runs)
qed

lemma range_decomp:
  "first \<le> lst \<Longrightarrow> take first v @ take (lst - first) (drop first v) @ drop lst v = v"
proof -
  assume "first \<le> lst"
  then have "drop (lst - first) (drop first v) = drop lst v" by simp
  then have "take (lst - first) (drop first v) @ drop lst v = drop first v"
    using append_take_drop_id [of "lst - first" "drop first v"] by simp
  then show ?thesis by simp
qed

lemma std_stable_sort_frame:
  assumes "first \<le> lst" "lst \<le> length v"
  shows "length (std_stable_sort v first lst) = length v"
    and "mset (std_stable_sort v first lst) = mset v"
    and "take first (std_stable_sort v first lst) = take first v"
    and "drop lst (std_stable_sort v first lst) = drop lst v"
    and "take (lst - first) (drop first (std_stable_sort v first lst))
           = stable_sort_list (take (lst - first) (drop first v))"
proof -
  let ?m = "take (lst - first) (drop first v)"
  have lm: "length (stable_sort_list ?m) = lst - first"
    using assms by (simp add: length_stable_sort_list)
  have la: "length (take first v) = first" using assms by simp
  show "length (std_stable_sort v first lst) = length v"
    using assms by (rule length_std_stable_sort)
  have "mset (take first v) + mset ?m + mset (drop lst v) = mset v"
    using arg_cong [OF range_decomp [OF assms(1), of v], of mset] by (simp add: ac_simps)
  then show "mset (std_stable_sort v first lst) = mset v"
    by (simp add: std_stable_sort_def mset_stable_sort_list add.assoc)
  show "take first (std_stable_sort v first lst) = take first v"
    using la by (simp add: std_stable_sort_def)
  show "drop lst (std_stable_sort v first lst) = drop lst v"
    using la lm assms by (simp add: std_stable_sort_def)
  show "take (lst - first) (drop first (std_stable_sort v first lst)) = stable_sort_list ?m"
    using la lm by (simp add: std_stable_sort_def)
qed

lemma std_inplace_merge_frame:
  assumes "first \<le> middle" "middle \<le> lst" "lst \<le> length v"
  shows "take first (std_inplace_merge v first middle lst) = take first v"
    and "drop lst (std_inplace_merge v first middle lst) = drop lst v"
    and "take (lst - first) (drop first (std_inplace_merge v first middle lst))
           = merge_list (take (middle - first) (drop first v)) (take (lst - middle) (drop middle v))"
proof -
  let ?m = "merge_list (take (middle - first) (drop first v)) (take (lst - middle) (drop middle v))"
  have lm: "length ?m = lst - first"
    using assms by (simp add: length_merge_list)
  have la: "length (take first v) = first" using assms by simp
  show "take first (std_inplace_merge v first middle lst) = take first v"
    using la by (simp add: std_inplace_merge_def)
  show "drop lst (std_inplace_merge v first middle lst) = drop lst v"
    using la lm assms by (simp add: std_inplace_merge_def)
  show "take (lst - first) (drop first (std_inplace_merge v first middle lst)) = ?m"
    using la lm by (simp add: std_inplace_merge_def)
qed

section \<open>What the recursion computes\<close>

lemma midpoint_bounds:
  assumes "\<not> int lst - int first \<le> 1"
  shows "first < first + nat ((int lst - int first) div 2)"
    and "first + nat ((int lst - int first) div 2) < lst"
  using assms by auto

lemma stable_sort_threshold_sorts:
  "first \<le> lst \<Longrightarrow> lst \<le> length v \<Longrightarrow>
     stable_sort_threshold thr v first lst reci = Some (std_stable_sort v first lst)"
proof (induction "lst - first" arbitrary: v first lst reci rule: less_induct)
  case less
  let ?len = "int lst - int first"
  let ?m = "first + nat (?len div 2)"
  show ?case
  proof (cases "?len \<le> 1")
    case True
    then show ?thesis
      using less.prems
      by (simp add: stable_sort_threshold.simps [of thr v first lst reci] std_stable_sort_short)
  next
    case False
    note long = this
    have m: "first < ?m" "?m < lst" using midpoint_bounds [OF long] .
    show ?thesis
    proof (cases "word_sle (reci + 1) thr")
      case True
      have h1: "stable_sort_threshold thr v first ?m (reci + 1) = Some (std_stable_sort v first ?m)"
        using m less.prems by (intro less.hyps) simp_all
      have len1: "length (std_stable_sort v first ?m) = length v"
        using m less.prems by (intro length_std_stable_sort) simp_all
      have h2: "stable_sort_threshold thr (std_stable_sort v first ?m) ?m lst (reci + 1)
                  = Some (std_stable_sort (std_stable_sort v first ?m) ?m lst)"
        using m less.prems len1 by (intro less.hyps) simp_all
      have "stable_sort_threshold thr v first lst reci
              = Some (std_inplace_merge (std_stable_sort (std_stable_sort v first ?m) ?m lst)
                        first ?m lst)"
        using long True h1 h2
        by (simp add: stable_sort_threshold.simps [of thr v first lst reci] Let_def)
      also have "std_inplace_merge (std_stable_sort (std_stable_sort v first ?m) ?m lst) first ?m lst
                   = std_stable_sort v first lst"
        using m less.prems by (intro sort_halves_then_merge) simp_all
      finally show ?thesis .
    next
      case False
      then show ?thesis
        using long by (simp add: stable_sort_threshold.simps [of thr v first lst reci] Let_def)
    qed
  qed
qed

lemma stable_sort_threshold_run:
  "stable_sort_threshold THRESHOLD v first lst reci = Some (run (call_tree first lst reci) v)"
proof (induction "lst - first" arbitrary: v first lst reci rule: less_induct)
  case less
  let ?len = "int lst - int first"
  let ?m = "first + nat (?len div 2)"
  show ?case
  proof (cases "?len \<le> 1")
    case True
    then show ?thesis
      by (simp add: stable_sort_threshold.simps [of THRESHOLD v first lst reci]
            call_tree.simps [of first lst reci])
  next
    case False
    have m: "first < ?m" "?m < lst" using midpoint_bounds [OF False] .
    have h1: "\<And>w. stable_sort_threshold THRESHOLD w first ?m (reci + 1)
                 = Some (run (call_tree first ?m (reci + 1)) w)"
      using m by (intro less.hyps) simp
    have h2: "\<And>w. stable_sort_threshold THRESHOLD w ?m lst (reci + 1)
                 = Some (run (call_tree ?m lst (reci + 1)) w)"
      using m by (intro less.hyps) simp
    show ?thesis
      using False
      by (simp add: stable_sort_threshold.simps [of THRESHOLD v first lst reci]
            call_tree.simps [of first lst reci] h1 h2 Let_def)
  qed
qed

lemma stable_sort_cilk_calls:
  "stable_sort_cilk v first lst reci = Some (run (call_tree first lst reci) v, call_tree first lst reci)"
proof (induction "lst - first" arbitrary: v first lst reci rule: less_induct)
  case less
  let ?len = "int lst - int first"
  let ?m = "first + nat (?len div 2)"
  show ?case
  proof (cases "?len \<le> 1")
    case True
    then show ?thesis
      by (simp add: stable_sort_cilk.simps [of v first lst reci] call_tree.simps [of first lst reci])
  next
    case False
    have m: "first < ?m" "?m < lst" using midpoint_bounds [OF False] .
    have h1: "\<And>w. stable_sort_cilk w first ?m (reci + 1)
                 = Some (run (call_tree first ?m (reci + 1)) w, call_tree first ?m (reci + 1))"
      using m by (intro less.hyps) simp
    have h2: "\<And>w. stable_sort_cilk w ?m lst (reci + 1)
                 = Some (run (call_tree ?m lst (reci + 1)) w, call_tree ?m lst (reci + 1))"
      using m by (intro less.hyps) simp
    show ?thesis
      using False
      by (simp add: stable_sort_cilk.simps [of v first lst reci] call_tree.simps [of first lst reci]
            h1 h2 Let_def)
  qed
qed

lemma stable_sort_openmp_calls:
  "stable_sort_openmp v first lst reci = Some (run (call_tree first lst reci) v, call_tree first lst reci)"
proof (induction "lst - first" arbitrary: v first lst reci rule: less_induct)
  case less
  let ?len = "int lst - int first"
  let ?m = "first + nat (?len div 2)"
  show ?case
  proof (cases "?len \<le> 1")
    case True
    then show ?thesis
      by (simp add: stable_sort_openmp.simps [of v first lst reci] call_tree.simps [of first lst reci])
  next
    case False
    have m: "first < ?m" "?m < lst" using midpoint_bounds [OF False] .
    have h1: "\<And>w. stable_sort_openmp w first ?m (reci + 1)
                 = Some (run (call_tree first ?m (reci + 1)) w, call_tree first ?m (reci + 1))"
      using m by (intro less.hyps) simp
    have h2: "\<And>w. stable_sort_openmp w ?m lst (reci + 1)
                 = Some (run (call_tree ?m lst (reci + 1)) w, call_tree ?m lst (reci + 1))"
      using m by (intro less.hyps) simp
    show ?thesis
      using False
      by (simp add: stable_sort_openmp.simps [of v first lst reci] call_tree.simps [of first lst reci]
            h1 h2 Let_def)
  qed
qed

lemma stable_sort_tbb_calls:
  "stable_sort_tbb v first lst reci = Some (run (call_tree first lst reci) v, call_tree first lst reci)"
proof (induction "lst - first" arbitrary: v first lst reci rule: less_induct)
  case less
  let ?len = "int lst - int first"
  let ?m = "first + nat (?len div 2)"
  show ?case
  proof (cases "?len \<le> 1")
    case True
    then show ?thesis
      by (simp add: stable_sort_tbb.simps [of v first lst reci] call_tree.simps [of first lst reci])
  next
    case False
    have m: "first < ?m" "?m < lst" using midpoint_bounds [OF False] .
    have h1: "\<And>w. stable_sort_tbb w first ?m (reci + 1)
                 = Some (run (call_tree first ?m (reci + 1)) w, call_tree first ?m (reci + 1))"
      using m by (intro less.hyps) simp
    have h2: "\<And>w. stable_sort_tbb w ?m lst (reci + 1)
                 = Some (run (call_tree ?m lst (reci + 1)) w, call_tree ?m lst (reci + 1))"
      using m by (intro less.hyps) simp
    show ?thesis
      using False
      by (simp add: stable_sort_tbb.simps [of v first lst reci] call_tree.simps [of first lst reci]
            h1 h2 Let_def)
  qed
qed

lemma stable_sort_thread_calls:
  "stable_sort_thread v first lst reci = Some (run (call_tree first lst reci) v, call_tree first lst reci)"
proof (induction "lst - first" arbitrary: v first lst reci rule: less_induct)
  case less
  let ?len = "int lst - int first"
  let ?m = "first + nat (?len div 2)"
  show ?case
  proof (cases "?len \<le> 1")
    case True
    then show ?thesis
      by (simp add: stable_sort_thread.simps [of v first lst reci] call_tree.simps [of first lst reci])
  next
    case False
    have m: "first < ?m" "?m < lst" using midpoint_bounds [OF False] .
    have h1: "\<And>w. stable_sort_thread w first ?m (reci + 1)
                 = Some (run (call_tree first ?m (reci + 1)) w, call_tree first ?m (reci + 1))"
      using m by (intro less.hyps) simp
    have h2: "\<And>w. stable_sort_thread w ?m lst (reci + 1)
                 = Some (run (call_tree ?m lst (reci + 1)) w, call_tree ?m lst (reci + 1))"
      using m by (intro less.hyps) simp
    show ?thesis
      using False
      by (simp add: stable_sort_thread.simps [of v first lst reci] call_tree.simps [of first lst reci]
            h1 h2 Let_def)
  qed
qed

lemma stable_sort_rec_run:
  "stable_sort_rec b v first lst reci = Some (run (call_tree first lst reci) v)"
  by (cases b)
     (simp_all add: stable_sort_rec.simps calls_made.simps stable_sort_thread_calls
        stable_sort_openmp_calls stable_sort_tbb_calls stable_sort_cilk_calls)

lemma calls_made_call_tree: "calls_made b v first lst reci = Some (call_tree first lst reci)"
  by (cases b)
     (simp_all add: stable_sort_rec.simps calls_made.simps stable_sort_thread_calls
        stable_sort_openmp_calls stable_sort_tbb_calls stable_sort_cilk_calls)

lemma stable_sort_rec_threshold:
  "stable_sort_rec b v first lst reci = stable_sort_threshold THRESHOLD v first lst reci"
  by (simp add: stable_sort_rec_run stable_sort_threshold_run)

lemma sort_with_rec: "sort_with b v = stable_sort_rec b v 0 (length v) 0"
  by (cases b)
     (simp_all add: stable_sort_rec.simps calls_made.simps sort_with.simps calls_made_top.simps
        stable_sort_thread_top_def stable_sort_openmp_top_def
        stable_sort_tbb_top_def stable_sort_cilk_top_def)

lemma calls_made_top_rec: "calls_made_top b v = calls_made b v 0 (length v) 0"
  by (cases b)
     (simp_all add: stable_sort_rec.simps calls_made.simps sort_with.simps calls_made_top.simps
        stable_sort_thread_top_def stable_sort_openmp_top_def
        stable_sort_tbb_top_def stable_sort_cilk_top_def)

lemma stable_sort_rec_sorts:
  "first \<le> lst \<Longrightarrow> lst \<le> length v \<Longrightarrow>
     stable_sort_rec b v first lst reci = Some (std_stable_sort v first lst)"
  by (simp add: stable_sort_rec_threshold stable_sort_threshold_sorts)

lemma sort_with_sorts: "sort_with b v = Some (std_stable_sort v 0 (length v))"
  by (simp add: sort_with_rec stable_sort_rec_sorts)

lemma std_stable_sort_whole: "std_stable_sort v 0 (length v) = stable_sort_list v"
  by (simp add: std_stable_sort_def)

section \<open>The call tree\<close>

lemma gate_ok_call_tree: "gate_ok (call_tree first lst reci)"
proof (induction first lst reci rule: call_tree.induct)
  case (1 first lst reci)
  then show ?case
    by (simp add: call_tree.simps [of first lst reci] Let_def)
qed


lemma leaves_depth3: "length (leaves (call_tree first lst 3)) \<le> 1"
  by (simp add: call_tree.simps [of first lst 3] THRESHOLD_def Let_def)

lemma leaves_depth2: "length (leaves (call_tree first lst 2)) \<le> 2"
  using leaves_depth3 [of first "first + nat ((int lst - int first) div 2)"]
        leaves_depth3 [of "first + nat ((int lst - int first) div 2)" lst]
  by (simp add: call_tree.simps [of first lst 2] THRESHOLD_def Let_def)

lemma leaves_depth1: "length (leaves (call_tree first lst 1)) \<le> 4"
  using leaves_depth2 [of first "first + nat ((int lst - int first) div 2)"]
        leaves_depth2 [of "first + nat ((int lst - int first) div 2)" lst]
  by (simp add: call_tree.simps [of first lst 1] THRESHOLD_def Let_def)

lemma leaves_depth0: "length (leaves (call_tree first lst 0)) \<le> 8"
  using leaves_depth1 [of first "first + nat ((int lst - int first) div 2)"]
        leaves_depth1 [of "first + nat ((int lst - int first) div 2)" lst]
  by (simp add: call_tree.simps [of first lst 0] THRESHOLD_def Let_def)

section \<open>The order of the two halves\<close>

lemma sort_upper_half_first:
  assumes "first \<le> middle" "middle \<le> lst" "lst \<le> length v"
  shows "std_inplace_merge (std_stable_sort (std_stable_sort v middle lst) first middle)
           first middle lst = std_stable_sort v first lst"
proof -
  obtain a l r b where v: "v = a @ l @ r @ b" and la: "length a = first"
    and ll: "length l = middle - first" and lr: "length r = lst - middle"
    using split_range [OF assms] by blast
  have s1: "std_stable_sort ((a @ l) @ r @ b) middle lst = (a @ l) @ stable_sort_list r @ b"
    using la ll lr assms by (intro std_stable_sort_parts) simp_all
  have s2: "std_stable_sort (a @ l @ (stable_sort_list r @ b)) first middle
              = a @ stable_sort_list l @ (stable_sort_list r @ b)"
    using la ll assms(1) by (rule std_stable_sort_parts)
  have s3: "std_inplace_merge (a @ stable_sort_list l @ stable_sort_list r @ b) first middle lst
              = a @ merge_list (stable_sort_list l) (stable_sort_list r) @ b"
    using la ll lr assms by (intro std_inplace_merge_parts) (simp_all add: length_stable_sort_list)
  have s4: "std_stable_sort (a @ (l @ r) @ b) first lst = a @ stable_sort_list (l @ r) @ b"
    using la ll lr assms by (intro std_stable_sort_parts) simp_all
  show ?thesis
    using s1 s2 s3 s4 by (simp add: v merge_sorted_runs)
qed

lemma run_upper_first_sorts:
  "first \<le> lst \<Longrightarrow> lst \<le> length v \<Longrightarrow>
     run_upper_first (call_tree first lst reci) v = std_stable_sort v first lst"
proof (induction "lst - first" arbitrary: v first lst reci rule: less_induct)
  case less
  let ?len = "int lst - int first"
  let ?m = "first + nat (?len div 2)"
  show ?case
  proof (cases "?len \<le> 1")
    case True
    then show ?thesis
      using less.prems by (simp add: call_tree.simps [of first lst reci] std_stable_sort_short)
  next
    case False
    note long = this
    have m: "first < ?m" "?m < lst" using midpoint_bounds [OF long] .
    show ?thesis
    proof (cases "word_sle (reci + 1) THRESHOLD")
      case True
      have h1: "run_upper_first (call_tree ?m lst (reci + 1)) v = std_stable_sort v ?m lst"
        using m less.prems by (intro less.hyps) simp_all
      have len1: "length (std_stable_sort v ?m lst) = length v"
        using m less.prems by (intro length_std_stable_sort) simp_all
      have h2: "run_upper_first (call_tree first ?m (reci + 1)) (std_stable_sort v ?m lst)
                  = std_stable_sort (std_stable_sort v ?m lst) first ?m"
        using m less.prems len1 by (intro less.hyps) simp_all
      have "run_upper_first (call_tree first lst reci) v
              = std_inplace_merge (std_stable_sort (std_stable_sort v ?m lst) first ?m) first ?m lst"
        using long True h1 h2 by (simp add: call_tree.simps [of first lst reci] Let_def)
      also have "\<dots> = std_stable_sort v first lst"
        using m less.prems by (intro sort_upper_half_first) simp_all
      finally show ?thesis .
    next
      case False
      then show ?thesis
        using long by (simp add: call_tree.simps [of first lst reci] Let_def)
    qed
  qed
qed

section \<open>The self-check accepts equal vectors\<close>

lemma vec_check_loop_same: "vec_check_loop v v sz i"
proof (induction "sz - i" arbitrary: i)
  case 0
  then show ?case by (simp add: vec_check_loop.simps [of v v sz i])
next
  case (Suc n)
  then have "vec_check_loop v v sz (i + 1)" by simp
  then show ?case by (simp add: vec_check_loop.simps [of v v sz i])
qed

lemma vec_check_same: "vec_check v v = Some True"
  by (simp add: vec_check_def vec_check_loop_same)

section \<open>The claims\<close>

text \<open>
  C2. For every vector and every variant, the parallel sort returns, and the vector it
  leaves is equal, element for element, to what \<open>std::stable_sort\<close> makes of a copy of the
  input. \<open>vec_check\<close> accepts the pair, and it also accepts the comparison the debug build
  makes in \<open>elapsed_time\<close>, where the copy is taken from the vector after the timed runs.
\<close>

theorem sort_with_matches_std_stable_sort:
  "sort_with b v = Some (std_stable_sort v 0 (length v))
   \<and> returns (sort_with b v) (\<lambda>r. vec_check r (std_stable_sort v 0 (length v)) = Some True
        \<and> vec_check r (std_stable_sort r 0 (length r)) = Some True)"
proof -
  let ?r = "std_stable_sort v 0 (length v)"
  have "std_stable_sort ?r 0 (length ?r) = ?r"
    by (simp add: std_stable_sort_whole stable_sort_list_id sorted_stable_sort_list)
  then show ?thesis
    by (simp add: sort_with_sorts returns_def vec_check_same)
qed

theorem sort_with_matches_std_stable_sort_witness:
  "sort_with Thread [(5, 0), (3, 1), (5, 2), (1, 3)] = Some [(1, 3), (3, 1), (5, 0), (5, 2)]"
  using sort_with_matches_std_stable_sort [of Thread "[(5, 0), (3, 1), (5, 2), (1, 3)]"]
  by (simp add: std_stable_sort_def pair_less_def word_sless_alt)

text \<open>
  C1. For every vector and every variant, the sort returns a vector that holds exactly the
  records of the input, each as often as the input does, with the keys in ascending
  order, and in which of two records with equal keys the one with the smaller original
  index comes first.
\<close>

theorem sort_with_key_order:
  "returns (sort_with b v)
     (\<lambda>ys. mset ys = mset v \<and> length ys = length v
        \<and> key_ascending ys \<and> smaller_index_first ys)"
proof -
  let ?r = "std_stable_sort v 0 (length v)"
  have "already_sorted ?r"
    by (simp add: std_stable_sort_whole sorted_stable_sort_list flip: sorted_sval_already)
  moreover have "mset ?r = mset v" "length ?r = length v"
    by (simp_all add: std_stable_sort_whole mset_stable_sort_list length_stable_sort_list)
  ultimately show ?thesis
    by (simp add: sort_with_sorts returns_def already_sorted_key_ascending
          already_sorted_smaller_index_first)
qed

theorem sort_with_key_order_witness:
  "sort_with TBB [(5, 2), (3, 7), (5, 0)] = Some [(3, 7), (5, 0), (5, 2)]
   \<and> mset [(3, 7), (5, 0), (5, 2) :: mypair] = mset [(5, 2), (3, 7), (5, 0)]
   \<and> key_ascending [(3, 7), (5, 0), (5, 2)] \<and> smaller_index_first [(3, 7), (5, 0), (5, 2)]"
proof -
  have r: "sort_with TBB [(5, 2), (3, 7), (5, 0)] = Some [(3, 7), (5, 0), (5, 2)]"
    by (simp add: sort_with_sorts std_stable_sort_def pair_less_def word_sless_alt)
  show ?thesis
    using sort_with_key_order [of TBB "[(5, 2), (3, 7), (5, 0)]"] r by (simp add: returns_def)
qed

text \<open>
  C6. A vector that is already sorted (keys ascending, equal keys in ascending order of
  original index) is returned unchanged by every variant.
\<close>

theorem sorted_vector_unchanged:
  "already_sorted v \<Longrightarrow> sort_with b v = Some v"
  by (simp add: sort_with_sorts std_stable_sort_whole stable_sort_list_id sorted_sval_already)

theorem sorted_vector_unchanged_witness:
  "already_sorted [(1, 3), (3, 1), (5, 0), (5, 2)]
   \<and> sort_with OpenMP [(1, 3), (3, 1), (5, 0), (5, 2)] = Some [(1, 3), (3, 1), (5, 0), (5, 2)]"
proof -
  have h: "already_sorted [(1, 3), (3, 1), (5, 0), (5, 2)]"
    by (simp add: sval_def flip: sorted_sval_already)
  show ?thesis
    using h sorted_vector_unchanged [OF h, of OpenMP] by simp
qed



text \<open>
  C7. With the threshold as a parameter of the recursion, the thresholds 0, 3 and 10 give
  the same result on every vector, and the sort returns. At the program's own threshold
  the parametrised recursion is each of the four variants.
\<close>

theorem threshold_invariance:
  "stable_sort_threshold 0 v 0 (length v) 0 = stable_sort_threshold 3 v 0 (length v) 0
   \<and> stable_sort_threshold 10 v 0 (length v) 0 = stable_sort_threshold 3 v 0 (length v) 0
   \<and> stable_sort_threshold 3 v 0 (length v) 0 \<noteq> None
   \<and> stable_sort_rec b w first lst reci = stable_sort_threshold THRESHOLD w first lst reci"
  by (simp add: stable_sort_threshold_sorts stable_sort_rec_threshold)

theorem threshold_invariance_witness:
  "stable_sort_threshold 0 [(5, 0), (3, 1), (5, 2), (1, 3)] 0 4 0 = Some [(1, 3), (3, 1), (5, 0), (5, 2)]
   \<and> stable_sort_threshold 3 [(5, 0), (3, 1), (5, 2), (1, 3)] 0 4 0 = Some [(1, 3), (3, 1), (5, 0), (5, 2)]
   \<and> stable_sort_threshold 10 [(5, 0), (3, 1), (5, 2), (1, 3)] 0 4 0 = Some [(1, 3), (3, 1), (5, 0), (5, 2)]"
proof -
  have e: "length [(5, 0), (3, 1), (5, 2), (1, 3) :: mypair] = 4" by simp
  have "stable_sort_threshold 3 [(5, 0), (3, 1), (5, 2), (1, 3)] 0 4 0
          = Some [(1, 3), (3, 1), (5, 0), (5, 2)]"
    by (simp add: stable_sort_threshold.simps std_inplace_merge_def std_stable_sort_def
          pair_less_def word_sless_alt word_sle_eq)
  then show ?thesis
    using threshold_invariance [of "[(5, 0), (3, 1), (5, 2), (1, 3)]" Thread "[]" 0 0 0, unfolded e]
    by simp
qed

text \<open>
  C8. On every valid range of a vector, each variant returns a vector of the same length
  whose records are a permutation of the original ones, within the range as well, and
  whose elements before \<open>first\<close> and from \<open>last\<close> on are the original ones.
\<close>

theorem range_permuted_outside_untouched:
  assumes "first \<le> lst" and "lst \<le> length v"
  shows "returns (stable_sort_rec b v first lst reci)
           (\<lambda>v'. length v' = length v \<and> mset v' = mset v
              \<and> take first v' = take first v \<and> drop lst v' = drop lst v
              \<and> mset (take (lst - first) (drop first v')) = mset (take (lst - first) (drop first v)))"
  using assms
  by (simp add: returns_def stable_sort_rec_sorts std_stable_sort_frame mset_stable_sort_list)

theorem range_permuted_outside_untouched_witness:
  "(1::nat) \<le> 3 \<and> 3 \<le> length [(9, 0), (8, 1), (7, 2), (1, 3) :: mypair]
   \<and> stable_sort_rec Thread [(9, 0), (8, 1), (7, 2), (1, 3)] 1 3 0
         = Some [(9, 0), (7, 2), (8, 1), (1, 3)]
   \<and> mset [(9, 0), (7, 2), (8, 1), (1, 3) :: mypair] = mset [(9, 0), (8, 1), (7, 2), (1, 3)]
   \<and> take 1 [(9, 0), (7, 2), (8, 1), (1, 3) :: mypair] = take 1 [(9, 0), (8, 1), (7, 2), (1, 3)]
   \<and> drop 3 [(9, 0), (7, 2), (8, 1), (1, 3) :: mypair] = drop 3 [(9, 0), (8, 1), (7, 2), (1, 3)]"
proof -
  have h1: "(1::nat) \<le> 3" by simp
  have h2: "3 \<le> length [(9, 0), (8, 1), (7, 2), (1, 3) :: mypair]" by simp
  have r: "stable_sort_rec Thread [(9, 0), (8, 1), (7, 2), (1, 3)] 1 3 0
             = Some [(9, 0), (7, 2), (8, 1), (1, 3)]"
    using stable_sort_rec_sorts [OF h1 h2, of Thread 0]
    by (simp add: std_stable_sort_def pair_less_def word_sless_alt)
  show ?thesis
    using range_permuted_outside_untouched [OF h1 h2, of Thread 0] r
    by (simp add: returns_def)
qed



text \<open>
  C4. The record of calls that a sort itself writes shows the depth gate. A call on a range
  longer than one element takes the splitting branch exactly when its incremented depth
  counter is at most \<open>THRESHOLD\<close>, and otherwise hands the range to \<open>std::stable_sort\<close>
  and makes no further call; the same holds at every call below it. A call at depth 0, as
  the sort of a whole vector is, sorts at most \<open>2 ^ THRESHOLD = 8\<close> leaf segments.
\<close>

theorem depth_gate_bounds_leaves:
  "(int lst - int first \<le> 1 \<longrightarrow> calls_made b v first lst reci = Some Return)
   \<and> (\<not> int lst - int first \<le> 1 \<longrightarrow>
        (word_sle (reci + 1) THRESHOLD \<longrightarrow>
           (\<exists>lo hi. calls_made b v first lst reci
              = Some (Split first (first + nat ((int lst - int first) div 2)) lst (reci + 1) lo hi)))
        \<and> (\<not> word_sle (reci + 1) THRESHOLD \<longrightarrow>
             calls_made b v first lst reci = Some (Leaf first lst (reci + 1))
             \<and> stable_sort_rec b v first lst reci = Some (std_stable_sort v first lst)))
   \<and> (\<exists>t. calls_made b v first lst reci = Some t \<and> gate_ok t)
   \<and> (\<exists>t. calls_made b v first lst 0 = Some t \<and> length (leaves t) \<le> 2 ^ unat THRESHOLD)
   \<and> calls_made_top b v = calls_made b v 0 (length v) 0
   \<and> (2::nat) ^ unat THRESHOLD = 8
   \<and> calls_made b v first lst reci = Some (call_tree first lst reci)
   \<and> stable_sort_rec b v first lst reci = Some (run (call_tree first lst reci) v)"
proof -
  have t: "\<not> int lst - int first \<le> 1 \<longrightarrow>
        call_tree first lst reci =
          (if word_sle (reci + 1) THRESHOLD
           then Split first (first + nat ((int lst - int first) div 2)) lst (reci + 1)
                  (call_tree first (first + nat ((int lst - int first) div 2)) (reci + 1))
                  (call_tree (first + nat ((int lst - int first) div 2)) lst (reci + 1))
           else Leaf first lst (reci + 1))"
    by (simp add: call_tree.simps [of first lst reci] Let_def)
  have r: "int lst - int first \<le> 1 \<longrightarrow> call_tree first lst reci = Return"
    by (simp add: call_tree.simps [of first lst reci])
  have l: "\<not> int lst - int first \<le> 1 \<longrightarrow> \<not> word_sle (reci + 1) THRESHOLD \<longrightarrow>
             stable_sort_rec b v first lst reci = Some (std_stable_sort v first lst)"
    using t by (simp add: stable_sort_rec_run)
  show ?thesis
    using t r l leaves_depth0 [of first lst]
    by (simp add: calls_made_call_tree calls_made_top_rec stable_sort_rec_run
          gate_ok_call_tree THRESHOLD_def)
qed

theorem depth_gate_bounds_leaves_witness:
  "calls_made Thread [(5, 0), (3, 1), (5, 2), (1, 3)] 0 4 0
     = Some (Split 0 2 4 1 (Split 0 1 2 2 Return Return) (Split 2 3 4 2 Return Return))
   \<and> calls_made Thread [(5, 0), (3, 1), (5, 2), (1, 3)] 0 4 2
       = Some (Split 0 2 4 3 (Leaf 0 2 4) (Leaf 2 4 4))
   \<and> calls_made Thread [(5, 0), (3, 1), (5, 2), (1, 3)] 0 4 3 = Some (Leaf 0 4 4)
   \<and> stable_sort_rec Thread [(5, 0), (3, 1), (5, 2), (1, 3)] 0 4 3
       = Some (std_stable_sort [(5, 0), (3, 1), (5, 2), (1, 3)] 0 4)
   \<and> calls_made Thread [(5, 0), (3, 1), (5, 2), (1, 3)] 1 2 0 = Some Return
   \<and> map_option leaves (calls_made_top Thread (replicate 100 (0, 0)))
       = Some [(0, 12), (12, 25), (25, 37), (37, 50), (50, 62), (62, 75), (75, 87), (87, 100)]"
proof -
  have "call_tree 0 4 0 = Split 0 2 4 1 (Split 0 1 2 2 Return Return) (Split 2 3 4 2 Return Return)"
    by (simp add: call_tree.simps THRESHOLD_def word_sle_eq)
  moreover have "call_tree 0 4 2 = Split 0 2 4 3 (Leaf 0 2 4) (Leaf 2 4 4)"
    by (simp add: call_tree.simps THRESHOLD_def word_sle_eq)
  moreover have "leaves (call_tree 0 100 0)
       = [(0, 12), (12, 25), (25, 37), (37, 50), (50, 62), (62, 75), (75, 87), (87, 100)]"
    by (simp add: call_tree.simps THRESHOLD_def word_sle_eq)
  ultimately show ?thesis
    using depth_gate_bounds_leaves [of 4 0 Thread "[(5, 0), (3, 1), (5, 2), (1, 3)]" 0]
      depth_gate_bounds_leaves [of 4 0 Thread "[(5, 0), (3, 1), (5, 2), (1, 3)]" 2]
      depth_gate_bounds_leaves [of 4 0 Thread "[(5, 0), (3, 1), (5, 2), (1, 3)]" 3]
      depth_gate_bounds_leaves [of 2 1 Thread "[(5, 0), (3, 1), (5, 2), (1, 3)]" 0]
      depth_gate_bounds_leaves [of 100 0 Thread "replicate 100 (0, 0)" 0]
    by (simp add: THRESHOLD_def word_sle_eq)
qed

text \<open>
  C3, amended. When the merge step is invoked on a valid pair of adjacent ranges, each
  sorted in the record order (keys ascending, equal keys in ascending order of original
  index), it leaves the rest of the vector alone and makes \<open>[first, last)\<close> a permutation
  of the two runs that is sorted in the record order. If no record of the left run has a
  larger original index than a record of the right run with the same key, then among the
  records of each key those of the left run come first, followed by those of the right
  run, each group in its old order.
\<close>

theorem inplace_merge_record_order:
  assumes "first \<le> middle" and "middle \<le> lst" and "lst \<le> length v"
    and "already_sorted (take (middle - first) (drop first v))"
    and "already_sorted (take (lst - middle) (drop middle v))"
  shows "take first (std_inplace_merge v first middle lst) = take first v
    \<and> drop lst (std_inplace_merge v first middle lst) = drop lst v
    \<and> already_sorted (take (lst - first) (drop first (std_inplace_merge v first middle lst)))
    \<and> mset (take (lst - first) (drop first (std_inplace_merge v first middle lst)))
        = mset (take (middle - first) (drop first v)) + mset (take (lst - middle) (drop middle v))
    \<and> ((\<forall>a \<in> set (take (middle - first) (drop first v)).
          \<forall>b \<in> set (take (lst - middle) (drop middle v)).
            fst a = fst b \<longrightarrow> sint (snd a) \<le> sint (snd b))
        \<longrightarrow> (\<forall>k. records_with_key k (take (lst - first) (drop first (std_inplace_merge v first middle lst)))
                  = records_with_key k (take (middle - first) (drop first v))
                    @ records_with_key k (take (lst - middle) (drop middle v))))"
proof -
  let ?l = "take (middle - first) (drop first v)"
  let ?r = "take (lst - middle) (drop middle v)"
  have sl: "sorted (map sval ?l)" and sr: "sorted (map sval ?r)"
    using assms(4,5) by (simp_all add: sorted_sval_already)
  have m: "take (lst - first) (drop first (std_inplace_merge v first middle lst)) = merge_list ?l ?r"
    using assms(1-3) by (rule std_inplace_merge_frame)
  have "already_sorted (merge_list ?l ?r)"
    using sorted_merge_list [OF sl sr] by (simp add: sorted_sval_already)
  moreover have "(\<forall>a \<in> set ?l. \<forall>b \<in> set ?r. fst a = fst b \<longrightarrow> sint (snd a) \<le> sint (snd b))
        \<longrightarrow> (\<forall>k. records_with_key k (merge_list ?l ?r)
                  = records_with_key k ?l @ records_with_key k ?r)"
    using records_with_key_merge_list [OF sl sr] by blast
  ultimately show ?thesis
    unfolding m
    using std_inplace_merge_frame(1,2) [OF assms(1-3)] by (simp add: mset_merge_list)
qed

theorem inplace_merge_record_order_witness:
  "(0::nat) \<le> 2 \<and> (2::nat) \<le> 4 \<and> 4 \<le> length [(3, 0), (5, 1), (1, 2), (5, 3) :: mypair]
   \<and> already_sorted [(3, 0), (5, 1) :: mypair] \<and> already_sorted [(1, 2), (5, 3) :: mypair]
   \<and> std_inplace_merge [(3, 0), (5, 1), (1, 2), (5, 3)] 0 2 4 = [(1, 2), (3, 0), (5, 1), (5, 3)]
   \<and> already_sorted [(1, 2), (3, 0), (5, 1), (5, 3) :: mypair]
   \<and> records_with_key 5 [(1, 2), (3, 0), (5, 1), (5, 3)]
       = records_with_key 5 [(3, 0), (5, 1)] @ records_with_key 5 [(1, 2), (5, 3)]"
proof -
  have h1: "(0::nat) \<le> 2" and h2: "(2::nat) \<le> 4"
    and h3: "4 \<le> length [(3, 0), (5, 1), (1, 2), (5, 3) :: mypair]"
    by simp_all
  have h4: "already_sorted (take (2 - 0) (drop 0 [(3, 0), (5, 1), (1, 2), (5, 3) :: mypair]))"
    and h5: "already_sorted (take (4 - 2) (drop 2 [(3, 0), (5, 1), (1, 2), (5, 3) :: mypair]))"
    by (simp_all add: sval_def flip: sorted_sval_already)
  have r: "std_inplace_merge [(3, 0), (5, 1), (1, 2), (5, 3)] 0 2 4 = [(1, 2), (3, 0), (5, 1), (5, 3)]"
    by (simp add: std_inplace_merge_def pair_less_def word_sless_alt)
  show ?thesis
    using inplace_merge_record_order [OF h1 h2 h3 h4 h5] h4 h5 r
    by (simp add: records_with_key_def)
qed

text \<open>
  The merge step compares whole records, so of two records with equal keys it puts the one
  with the smaller original index first, also when that record comes from the right run:
  merging the runs \<open>[(5, 2)]\<close> and \<open>[(5, 0)]\<close> puts the right run's record first.
\<close>

theorem inplace_merge_right_record_first:
  "already_sorted [(5, 2)] \<and> already_sorted [(5, 0)]
   \<and> std_inplace_merge [(5, 2), (5, 0)] 0 1 2 = [(5, 0), (5, 2)]
   \<and> records_with_key 5 (std_inplace_merge [(5, 2), (5, 0)] 0 1 2)
       \<noteq> records_with_key 5 [(5, 2)] @ records_with_key 5 [(5, 0)]"
  by (simp add: already_sorted_def std_inplace_merge_def pair_less_def word_sless_alt
        records_with_key_def)

text \<open>
  C10. Records are compared lexicographically on key and original index. For every vector
  whose original indices are pairwise distinct, every variant returns the one strictly
  ascending arrangement of the records: any strictly ascending permutation of the input is
  that result, all variants agree on it, and the call tree carried out with the upper half
  before the lower half gives it too.
\<close>

theorem unique_ascending_result:
  assumes "distinct (map snd v)"
  shows "(pair_less x y \<longleftrightarrow>
            sint (fst x) < sint (fst y) \<or> (fst x = fst y \<and> sint (snd x) < sint (snd y)))
    \<and> returns (sort_with b v)
         (\<lambda>r. sorted_wrt pair_less r \<and> mset r = mset v
            \<and> (\<forall>ys. mset ys = mset v \<and> sorted_wrt pair_less ys \<longrightarrow> ys = r)
            \<and> sort_with b' v = Some r
            \<and> run_upper_first (call_tree 0 (length v) 0) v = r)"
proof -
  let ?r = "stable_sort_list v"
  have "distinct v" using assms by (simp add: distinct_map)
  then have "distinct ?r"
    using mset_eq_imp_distinct_iff [OF mset_stable_sort_list [of v]] by simp
  then have s: "sorted_wrt pair_less ?r"
    by (simp add: sorted_wrt_pair_less sorted_stable_sort_list)
  have u: "\<forall>ys. mset ys = mset v \<and> sorted_wrt pair_less ys \<longrightarrow> ys = ?r"
    by (auto simp: sorted_wrt_pair_less intro: sorted_sval_unique)
  have "run_upper_first (call_tree 0 (length v) 0) v = ?r"
    by (simp add: run_upper_first_sorts std_stable_sort_whole)
  then show ?thesis
    using s u
    by (simp add: pair_less_lex returns_def sort_with_sorts std_stable_sort_whole
          mset_stable_sort_list)
qed

theorem unique_ascending_result_witness:
  "distinct (map snd [(5, 0), (3, 1), (5, 2), (1, 3) :: mypair])
   \<and> sort_with Thread [(5, 0), (3, 1), (5, 2), (1, 3)] = Some [(1, 3), (3, 1), (5, 0), (5, 2)]
   \<and> sort_with Cilk [(5, 0), (3, 1), (5, 2), (1, 3)] = Some [(1, 3), (3, 1), (5, 0), (5, 2)]
   \<and> sorted_wrt pair_less [(1, 3), (3, 1), (5, 0), (5, 2)]
   \<and> run_upper_first (call_tree 0 4 0) [(5, 0), (3, 1), (5, 2), (1, 3)]
       = [(1, 3), (3, 1), (5, 0), (5, 2)]"
proof -
  have e: "length [(5, 0), (3, 1), (5, 2), (1, 3) :: mypair] = 4" by simp
  have h: "distinct (map snd [(5, 0), (3, 1), (5, 2), (1, 3) :: mypair])" by simp
  have r: "sort_with Thread [(5, 0), (3, 1), (5, 2), (1, 3)] = Some [(1, 3), (3, 1), (5, 0), (5, 2)]"
    by (simp add: sort_with_sorts std_stable_sort_def pair_less_def word_sless_alt)
  show ?thesis
    using h r unique_ascending_result [OF h, where b = Thread and b' = Cilk, unfolded e]
    by (simp add: returns_def)
qed

end
